theory Spec2Isabelle
  imports Complex_Main "HOL-Library.Log_Nat" "HOL-Library.Sublist" "HOL-Library.Char_ord"
    "HOL-Library.List_Lexorder" "HOL-Library.Product_Lexorder"
begin

section \<open>Errors\<close>

text \<open>
  The exceptions the solver can raise, one constructor per raising site:
  \<^item> \<open>UnknownEncoding\<close>: the \<open>ValueError\<close> raised by the constructor for an encoding
    other than "simple" and "pattern" (the only explicit raise of the source);
  \<^item> \<open>MathDomainError\<close>: the \<open>ValueError\<close> of \<open>math.log2\<close> and \<open>math.sqrt\<close> outside
    their domain;
  \<^item> \<open>NotInList\<close>: the \<open>ValueError\<close> of \<open>list.index\<close> for an absent element;
  \<^item> \<open>AttributeError\<close>: reading an attribute that was never assigned;
  \<^item> \<open>ZeroDivisionError\<close>, \<open>OverflowError\<close>: integer true division;
  \<^item> \<open>IndexError\<close>: \<open>q.index[0]\<close> of a qubit without index, or a classical bit out
    of range;
  \<^item> \<open>NotUnitary\<close>: the inverse of a circuit that holds a measurement;
  \<^item> \<open>MpConversionError\<close>: \<open>int\<close> of an mpmath value that is infinite or complex.
\<close>

datatype error =
    UnknownEncoding string
  | MathDomainError
  | NotInList
  | AttributeError string
  | ZeroDivisionError
  | OverflowError
  | IndexError
  | NotUnitary
  | MpConversionError

section \<open>Counter width\<close>

text \<open>
  \<open>math.ceil(math.log2(s_size))\<close>, line 75. \<open>math.log2 0\<close> raises. The logarithm is
  the real one: the rounding of the double is not modelled (it is exact at powers of
  two and changes no ceiling for a list length below \<open>2 ^ 48\<close>).
\<close>

definition counter_width :: "nat \<Rightarrow> error + nat" where
  "counter_width s_size =
     (if s_size = 0 then Inl MathDomainError
      else Inr (nat \<lceil>log 2 (real s_size)\<rceil>))"


section \<open>Python primitives\<close>

text \<open>\<open>list.index\<close>: the position of the first equal element, or a \<open>ValueError\<close>.\<close>

fun index_of :: "'a list \<Rightarrow> 'a \<Rightarrow> error + nat" where
  "index_of [] x = Inl NotInList"
| "index_of (y # ys) x =
     (if y = x then Inr 0
      else (case index_of ys x of Inl e \<Rightarrow> Inl e | Inr i \<Rightarrow> Inr (Suc i)))"

text \<open>The decimal digits of a natural number, as \<open>f"{i}"\<close> formats it.\<close>

fun string_of_nat :: "nat \<Rightarrow> string" where
  "string_of_nat n =
     (if n < 10 then [''0123456789'' ! n]
      else string_of_nat (n div 10) @ [''0123456789'' ! (n mod 10)])"

declare string_of_nat.simps [simp del]

text \<open>The register name \<open>f"U_{i}"\<close> of element \<open>i\<close>, lines 159 and 206.\<close>

definition label :: "nat \<Rightarrow> string" where
  "label i = ''U_'' @ string_of_nat i"

section \<open>Double-precision arithmetic of the build\<close>

text \<open>
  A double is modelled by the real number it denotes. \<open>round_double\<close> rounds a real to
  the nearest double, ties to even, with the 53-bit significand and the least exponent
  of the binary64 format; a result of magnitude \<open>2 ^ 1024\<close> or more is out of range.
\<close>

definition round_half_even :: "real \<Rightarrow> int" where
  "round_half_even x =
     (let f = \<lfloor>x\<rfloor>; d = x - of_int f
      in if d < 1 / 2 then f else if 1 / 2 < d then f + 1
         else if even f then f else f + 1)"

text \<open>
  The unit in the last place of the double nearest to \<open>x\<close>: the exponent of \<open>x\<close>,
  not below that of the subnormal numbers, less the 52 fraction bits.
\<close>

definition ulp :: "real \<Rightarrow> real" where
  "ulp x = 2 powr (of_int (max \<lfloor>log 2 \<bar>x\<bar>\<rfloor> (- 1022)) - 52)"

definition round_double :: "real \<Rightarrow> real" where
  "round_double x =
     (if x = 0 then 0 else of_int (round_half_even (x / ulp x)) * ulp x)"

text \<open>
  \<open>a / b\<close> on Python integers: the correctly rounded quotient, \<open>ZeroDivisionError\<close>
  for a zero divisor and \<open>OverflowError\<close> when the quotient is too large for a double.
\<close>

definition int_true_divide :: "int \<Rightarrow> int \<Rightarrow> error + real" where
  "int_true_divide a b =
     (if b = 0 then Inl ZeroDivisionError
      else let r = round_double (of_int a / of_int b)
           in if 2 ^ 1024 \<le> \<bar>r\<bar> then Inl OverflowError else Inr r)"

text \<open>\<open>math.sqrt\<close>: a \<open>ValueError\<close> below zero, else the correctly rounded root.\<close>

definition math_sqrt :: "real \<Rightarrow> error + real" where
  "math_sqrt x = (if x < 0 then Inl MathDomainError else Inr (round_double (sqrt x)))"

text \<open>\<open>math.pi\<close>, the double nearest to \<open>pi\<close>.\<close>

definition math_pi :: real where
  "math_pi = 884279719003555 / 2 ^ 48"

text \<open>
  Line 288: \<open>math.floor((math.pi / 4) * math.sqrt((2 ** s_size) / num_solutions))\<close>.
  The division by four is exact.
\<close>

definition default_num_iterations :: "nat \<Rightarrow> int \<Rightarrow> error + int" where
  "default_num_iterations s_size num_solutions =
     (case int_true_divide (2 ^ s_size) num_solutions of
        Inl e \<Rightarrow> Inl e
      | Inr q \<Rightarrow>
          (case math_sqrt q of
             Inl e \<Rightarrow> Inl e
           | Inr r \<Rightarrow> Inr \<lfloor>round_double (math_pi / 4 * r)\<rfloor>))"


section \<open>Qubits, gates and circuits\<close>

text \<open>
  A qubit is a register name with an index vector: \<open>Qubit("S", i)\<close> has index \<open>[i]\<close>
  and \<open>Qubit("anc")\<close> has the empty index.
\<close>

datatype qubit = Qubit (reg_name: string) (index: "nat list")

datatype gate =
    H qubit
  | X qubit
  | CnX "qubit list"
  | CnZ "qubit list"
  | Measure qubit nat

text \<open>
  A circuit: its qubits in the order of their allocation, its gates in the order of
  their emission, and the width of its classical register.
\<close>

record circuit =
  qubit_ids :: "qubit list"
  gates :: "gate list"
  c_register :: nat

definition Circuit :: circuit where
  "Circuit = \<lparr>qubit_ids = [], gates = [], c_register = 0\<rparr>"

definition add_qubit :: "circuit \<Rightarrow> qubit \<Rightarrow> circuit" where
  "add_qubit c q = c\<lparr>qubit_ids := qubit_ids c @ [q]\<rparr>"

definition add_qubits :: "circuit \<Rightarrow> qubit list \<Rightarrow> circuit" where
  "add_qubits c qs = foldl add_qubit c qs"

definition add_gate :: "circuit \<Rightarrow> gate \<Rightarrow> circuit" where
  "add_gate c g = c\<lparr>gates := gates c @ [g]\<rparr>"

definition add_gates :: "circuit \<Rightarrow> gate list \<Rightarrow> circuit" where
  "add_gates c gs = foldl add_gate c gs"

text \<open>
  The property \<open>Circuit.qubits\<close>: the qubits sorted by register name, then by index.
\<close>

definition qubits :: "circuit \<Rightarrow> qubit list" where
  "qubits c = sort_key (\<lambda>q. (reg_name q, index q)) (qubit_ids c)"

text \<open>
  \<open>Circuit.append\<close>: the gates of the argument follow; a qubit of the argument that
  the circuit does not have yet is added to it.
\<close>

definition append_circuit :: "circuit \<Rightarrow> circuit \<Rightarrow> circuit" where
  "append_circuit c d =
     c\<lparr>qubit_ids := qubit_ids c @ filter (\<lambda>q. q \<notin> set (qubit_ids c)) (qubit_ids d),
       gates := gates c @ gates d\<rparr>"

text \<open>
  \<open>Circuit.dagger\<close>: the adjoint gates in reverse order. \<open>H\<close>, \<open>X\<close>, \<open>CnX\<close> and
  \<open>CnZ\<close> are their own adjoints; a measurement has none.
\<close>

fun gate_dagger :: "gate \<Rightarrow> error + gate" where
  "gate_dagger (Measure q c) = Inl NotUnitary"
| "gate_dagger g = Inr g"

fun dagger_gates :: "gate list \<Rightarrow> error + gate list" where
  "dagger_gates [] = Inr []"
| "dagger_gates (g # gs) =
     (case gate_dagger g of
        Inl e \<Rightarrow> Inl e
      | Inr g' \<Rightarrow>
          (case dagger_gates gs of Inl e \<Rightarrow> Inl e | Inr gs' \<Rightarrow> Inr (gs' @ [g'])))"

definition dagger :: "circuit \<Rightarrow> error + circuit" where
  "dagger c =
     (case dagger_gates (gates c) of
        Inl e \<Rightarrow> Inl e
      | Inr gs \<Rightarrow> Inr (c\<lparr>gates := gs\<rparr>))"

section \<open>The solver object\<close>

text \<open>
  The attributes the constructor assigns. \<open>subsets\<close> is the dictionary's items in
  enumeration order: a loop over its keys that reads each key's value visits the
  second components in this order. \<open>num_solutions\<close> is \<open>None\<close> while the attribute
  has not been assigned.
\<close>

record ('k, 'e) solver =
  universe :: "'e list"
  subsets :: "('k \<times> 'e list) list"
  num_solutions :: "int option"
  u_size :: nat
  s_size :: nat
  b :: nat

text \<open>
  The constructor, lines 59 to 75. The encoding provider's universe and its two
  subset collections, and the puzzle's solution count, are inputs.
\<close>

definition init ::
  "string \<Rightarrow> int option \<Rightarrow> int \<Rightarrow> 'e list \<Rightarrow> ('k \<times> 'e list) list \<Rightarrow> ('k \<times> 'e list) list
     \<Rightarrow> error + ('k, 'e) solver" where
  "init encoding num_solutions_arg puzzle_num_solutions enc_universe simple_subsets
       pattern_subsets =
     (if encoding \<noteq> ''simple'' \<and> encoding \<noteq> ''pattern'' then Inl (UnknownEncoding encoding)
      else
        let subs = (if encoding = ''simple'' then simple_subsets else pattern_subsets);
            ns = (if num_solutions_arg = None then Some puzzle_num_solutions else None)
        in (case counter_width (length subs) of
              Inl e \<Rightarrow> Inl e
            | Inr w \<Rightarrow>
                Inr \<lparr>universe = enc_universe, subsets = subs, num_solutions = ns,
                     u_size = length enc_universe, s_size = length subs, b = w\<rparr>))"

section \<open>Resource estimation\<close>

text \<open>
  The iteration count of lines 85 to 96. mpmath has no exponent bound, so nothing
  overflows; its 50-digit rounding is not modelled, the value is that of the real
  expression. The logarithm of zero is \<open>-inf\<close> and that of a negative number is
  complex: both reach the conversion to \<open>int\<close>, which raises.
\<close>

definition mp_num_iterations :: "nat \<Rightarrow> int \<Rightarrow> error + int" where
  "mp_num_iterations s num =
     (if num \<le> 0 then Inl MpConversionError
      else Inr \<lfloor>exp (ln (pi / 4) + (real s * ln 2 - ln (real_of_int num)) / 2)\<rfloor>)"

record estimate =
  n_qubits :: int
  MCX_gates :: int
  n_gates :: int
  depth :: "int option"

definition counter_gates :: "('k, 'e) solver \<Rightarrow> int" where
  "counter_gates sv = (\<Sum>s \<leftarrow> subsets sv. int (length (snd s)) * int (b sv))"

definition oracle_gates :: "('k, 'e) solver \<Rightarrow> int" where
  "oracle_gates sv = 1 + 2 * ((int (u_size sv) - 1) * int (b sv))"

text \<open>
  \<open>resource_estimation\<close>, lines 77 to 117. The second argument and the second
  component of the result are the global \<open>mpmath.mp.dps\<close> before and after the call.
\<close>

definition resource_estimation :: "('k, 'e) solver \<Rightarrow> nat \<Rightarrow> (error + estimate) \<times> nat" where
  "resource_estimation sv dps =
     (case num_solutions sv of
        None \<Rightarrow> (Inl (AttributeError ''num_solutions''), dps)
      | Some num \<Rightarrow>
          (case mp_num_iterations (s_size sv) num of
             Inl e \<Rightarrow> (Inl e, 50)
           | Inr num_iterations \<Rightarrow>
               let num_qubits = int (s_size sv) + int (u_size sv) * int (b sv) + 1;
                   superpos_gates = int (s_size sv);
                   prepare_anc_gates = 2;
                   diffuser_gates = 1 + 4 * int (s_size sv);
                   MCX = num_iterations * (oracle_gates sv + 2 * counter_gates sv);
                   total_gates = superpos_gates + prepare_anc_gates + MCX
                                 + num_iterations * diffuser_gates
               in (Inr \<lparr>n_qubits = num_qubits, MCX_gates = MCX, n_gates = total_gates,
                        depth = None\<rparr>, 50)))"


section \<open>Circuit construction\<close>

text \<open>The circuits and qubit lists that \<open>_build_circuit\<close> keeps on the solver
  (\<open>oracle_circ\<close> is the attribute \<open>oracle\<close>).\<close>

record builder =
  main_circuit :: circuit
  oracle_circ :: circuit
  diffuser :: circuit
  count_circuit :: circuit
  count_circuit_dag :: circuit
  aux_circ :: circuit
  s_qubits :: "qubit list"
  u_qubits :: "qubit list"
  anc :: qubit

text \<open>Lines 129 to 176 of \<open>_build_circuit\<close>: the registers and the initial gates.\<close>

definition allocate :: "('k, 'e) solver \<Rightarrow> builder" where
  "allocate sv =
     (let sq = map (\<lambda>i. Qubit ''S'' [i]) [0..<s_size sv];
          main1 = add_gates (add_qubits Circuit sq) (map H sq);
          count1 = add_qubits Circuit sq;
          diff1 = add_qubits Circuit sq;
          aux1 = add_qubits Circuit sq;
          uq = concat (map (\<lambda>i. map (\<lambda>j. Qubit (label i) [j]) [0..<b sv]) [0..<u_size sv]);
          main2 = add_qubits main1 uq;
          count2 = add_qubits count1 uq;
          oracle2 = add_qubits Circuit uq;
          aux2 = add_qubits aux1 uq;
          a = Qubit ''anc'' [];
          main3 = add_gate (add_gate (add_qubit main2 a) (X a)) (H a)
      in \<lparr>main_circuit = main3, oracle_circ = add_qubit oracle2 a, diffuser = diff1,
          count_circuit = count2, count_circuit_dag = Circuit, aux_circ = add_qubit aux2 a,
          s_qubits = sq, u_qubits = uq, anc = a\<rparr>)"

text \<open>
  Line 207: the qubits of the counting circuit whose register name starts with the
  label.
\<close>

definition register_of :: "circuit \<Rightarrow> string \<Rightarrow> qubit list" where
  "register_of c lbl = filter (\<lambda>q. prefix lbl (reg_name q)) (qubits c)"

text \<open>
  Lines 208 to 210: \<open>S_list\<close> grows by one qubit of the register at a time, and a
  copy of it is recorded after each step.
\<close>

fun s_lists :: "qubit list \<Rightarrow> qubit list \<Rightarrow> qubit list list" where
  "s_lists S_list [] = []"
| "s_lists S_list (q # rest) = (S_list @ [q]) # s_lists (S_list @ [q]) rest"

text \<open>Lines 200 to 210: the lists of one subset, over its elements.\<close>

fun q_list_of :: "circuit \<Rightarrow> 'e list \<Rightarrow> nat \<Rightarrow> 'e list \<Rightarrow> error + qubit list list" where
  "q_list_of cc us j [] = Inr []"
| "q_list_of cc us j (elementU # rest) =
     (case index_of us elementU of
        Inl e \<Rightarrow> Inl e
      | Inr i \<Rightarrow>
          (case q_list_of cc us j rest of
             Inl e \<Rightarrow> Inl e
           | Inr ql \<Rightarrow> Inr (s_lists [Qubit ''S'' [j]] (register_of cc (label i)) @ ql)))"

text \<open>Lines 197 to 212: one list of lists per subset, \<open>j\<close> counting the subsets.\<close>

fun all_lists_from ::
  "circuit \<Rightarrow> 'e list \<Rightarrow> nat \<Rightarrow> ('k \<times> 'e list) list \<Rightarrow> error + qubit list list list" where
  "all_lists_from cc us j [] = Inr []"
| "all_lists_from cc us j (sub # rest) =
     (case q_list_of cc us j (snd sub) of
        Inl e \<Rightarrow> Inl e
      | Inr ql \<Rightarrow>
          (case all_lists_from cc us (Suc j) rest of
             Inl e \<Rightarrow> Inl e
           | Inr al \<Rightarrow> Inr (ql # al)))"

text \<open>\<open>_build_counter\<close>, lines 181 to 227.\<close>

definition build_counter :: "('k, 'e) solver \<Rightarrow> builder \<Rightarrow> error + builder" where
  "build_counter sv bs =
     (case all_lists_from (count_circuit bs) (universe sv) 0 (subsets sv) of
        Inl e \<Rightarrow> Inl e
      | Inr all_lists \<Rightarrow>
          let reversed_lists = map rev all_lists;
              cc = add_gates (count_circuit bs) (map CnX (concat reversed_lists))
          in (case dagger cc of
                Inl e \<Rightarrow> Inl e
              | Inr d \<Rightarrow> Inr (bs\<lparr>count_circuit := cc, count_circuit_dag := d\<rparr>)))"

text \<open>
  Lines 235 to 237 and 247 to 249: an \<open>X\<close> on every counter qubit whose index is not
  zero.
\<close>

fun x_gates :: "qubit list \<Rightarrow> error + gate list" where
  "x_gates [] = Inr []"
| "x_gates (q # qs) =
     (case index q of
        [] \<Rightarrow> Inl IndexError
      | i # _ \<Rightarrow>
          (case x_gates qs of
             Inl e \<Rightarrow> Inl e
           | Inr gs \<Rightarrow> Inr (if i \<noteq> 0 then X q # gs else gs)))"

text \<open>\<open>_build_oracle\<close>, lines 229 to 249.\<close>

definition build_oracle :: "builder \<Rightarrow> error + builder" where
  "build_oracle bs =
     (case x_gates (u_qubits bs) of
        Inl e \<Rightarrow> Inl e
      | Inr before \<Rightarrow>
          let oracle_qubits_list = u_qubits bs @ [anc bs];
              o1 = add_gate (add_gates (oracle_circ bs) before) (CnX oracle_qubits_list)
          in (case x_gates (u_qubits bs) of
                Inl e \<Rightarrow> Inl e
              | Inr after \<Rightarrow> Inr (bs\<lparr>oracle_circ := add_gates o1 after\<rparr>)))"

text \<open>\<open>_build_diffuser\<close>, lines 251 to 265.\<close>

definition build_diffuser :: "builder \<Rightarrow> builder" where
  "build_diffuser bs =
     (let d1 = add_gates (diffuser bs) (concat (map (\<lambda>q. [H q, X q]) (s_qubits bs)));
          d2 = add_gate d1 (CnZ (s_qubits bs));
          d3 = add_gates d2 (concat (map (\<lambda>q. [X q, H q]) (s_qubits bs)))
      in bs\<lparr>diffuser := d3\<rparr>)"

text \<open>\<open>_assemble_aux_circ\<close>, lines 267 to 275.\<close>

definition assemble_aux_circ :: "('k, 'e) solver \<Rightarrow> builder \<Rightarrow> error + builder" where
  "assemble_aux_circ sv bs =
     (case build_counter sv bs of
        Inl e \<Rightarrow> Inl e
      | Inr bs1 \<Rightarrow>
          (case build_oracle bs1 of
             Inl e \<Rightarrow> Inl e
           | Inr bs2 \<Rightarrow>
               Inr (bs2\<lparr>aux_circ :=
                      append_circuit
                        (append_circuit (append_circuit (aux_circ bs2) (count_circuit bs2))
                           (oracle_circ bs2))
                        (count_circuit_dag bs2)\<rparr>)))"

text \<open>Lines 296 and 297: each subset qubit is measured into the bit of its index.\<close>

fun measure_gates :: "nat \<Rightarrow> qubit list \<Rightarrow> error + gate list" where
  "measure_gates width [] = Inr []"
| "measure_gates width (q # qs) =
     (case index q of
        [] \<Rightarrow> Inl IndexError
      | i # _ \<Rightarrow>
          if width \<le> i then Inl IndexError
          else (case measure_gates width qs of
                  Inl e \<Rightarrow> Inl e
                | Inr gs \<Rightarrow> Inr (Measure q i # gs)))"

text \<open>
  \<open>_assemble_full_circuit_w_meas\<close>, lines 277 to 297. \<open>range\<close> of a negative count
  is empty.
\<close>

definition assemble_full_circuit_w_meas ::
  "('k, 'e) solver \<Rightarrow> builder \<Rightarrow> int option \<Rightarrow> error + builder" where
  "assemble_full_circuit_w_meas sv bs num_iterations =
     (case assemble_aux_circ sv bs of
        Inl e \<Rightarrow> Inl e
      | Inr bs1 \<Rightarrow>
          let bs2 = build_diffuser bs1 in
          (case (case num_iterations of
                   Some k \<Rightarrow> Inr k
                 | None \<Rightarrow>
                     (case num_solutions sv of
                        None \<Rightarrow> Inl (AttributeError ''num_solutions'')
                      | Some num \<Rightarrow> default_num_iterations (s_size sv) num)) of
             Inl e \<Rightarrow> Inl e
           | Inr k \<Rightarrow>
               let main1 =
                     ((\<lambda>c. append_circuit (append_circuit c (aux_circ bs2)) (diffuser bs2))
                        ^^ nat k) (main_circuit bs2);
                   main2 = main1\<lparr>c_register := s_size sv\<rparr>
               in (case measure_gates (s_size sv) (s_qubits bs2) of
                     Inl e \<Rightarrow> Inl e
                   | Inr ms \<Rightarrow> Inr (bs2\<lparr>main_circuit := add_gates main2 ms\<rparr>))))"

text \<open>\<open>_build_circuit\<close>, lines 119 to 179: the assembled main circuit.\<close>

definition build_circuit :: "('k, 'e) solver \<Rightarrow> error + circuit" where
  "build_circuit sv =
     (case assemble_full_circuit_w_meas sv (allocate sv) None of
        Inl e \<Rightarrow> Inl e
      | Inr bs \<Rightarrow> Inr (main_circuit bs))"

section \<open>Computational-basis semantics of the bit-flip gates\<close>

text \<open>
  \<open>X\<close> and \<open>CnX\<close> permute the computational basis: a basis state assigns a bit to
  each qubit, \<open>X\<close> flips its qubit, and \<open>CnX\<close> flips its last qubit when all the
  others hold one. The other gates are not permutations of the basis.
\<close>

type_synonym basis_state = "qubit \<Rightarrow> bool"

fun apply_gate :: "gate \<Rightarrow> basis_state \<Rightarrow> basis_state option" where
  "apply_gate (X q) s = Some (s(q := \<not> s q))"
| "apply_gate (CnX qs) s =
     (case rev qs of
        [] \<Rightarrow> None
      | t # cs \<Rightarrow> Some (if list_all s cs then s(t := \<not> s t) else s))"
| "apply_gate g s = None"

fun run :: "gate list \<Rightarrow> basis_state \<Rightarrow> basis_state option" where
  "run [] s = Some s"
| "run (g # gs) s = (case apply_gate g s of None \<Rightarrow> None | Some s' \<Rightarrow> run gs s')"

text \<open>The number a list of qubits holds, least significant bit first.\<close>

fun reg_value :: "basis_state \<Rightarrow> qubit list \<Rightarrow> nat" where
  "reg_value s [] = 0"
| "reg_value s (q # qs) = (if s q then 1 else 0) + 2 * reg_value s qs"

text \<open>The counter register of element \<open>i\<close>: \<open>b\<close> qubits named \<open>U_i\<close>.\<close>

definition counter_register :: "('k, 'e) solver \<Rightarrow> nat \<Rightarrow> qubit list" where
  "counter_register sv i = map (\<lambda>j. Qubit (label i) [j]) [0..<b sv]"


section \<open>The counter as a sequence of increments\<close>

text \<open>
  The position of an element in the universe, zero for an element that is not in it
  (where \<open>index_of\<close> raises).
\<close>

definition position :: "'e list \<Rightarrow> 'e \<Rightarrow> nat" where
  "position us x = (case index_of us x of Inl e \<Rightarrow> 0 | Inr i \<Rightarrow> i)"

text \<open>
  The controlled increment of the register labelled \<open>U_i\<close> by subset qubit \<open>j\<close>: one
  \<open>CnX\<close> per qubit of the register, controlled on the subset qubit and on the lower
  qubits of the register, the gate on the highest qubit first.
\<close>

definition increment_gates :: "circuit \<Rightarrow> nat \<Rightarrow> nat \<Rightarrow> gate list" where
  "increment_gates cc j i =
     rev (map CnX (s_lists [Qubit ''S'' [j]] (register_of cc (label i))))"

text \<open>The block of subset \<open>j\<close>: the increments of its elements, the last element first.\<close>

definition subset_block :: "circuit \<Rightarrow> 'e list \<Rightarrow> nat \<Rightarrow> 'e list \<Rightarrow> gate list" where
  "subset_block cc us j elems =
     concat (map (\<lambda>x. increment_gates cc j (position us x)) (rev elems))"

text \<open>The blocks of the subsets in enumeration order, the first subset numbered \<open>j\<close>.\<close>

fun counter_blocks :: "circuit \<Rightarrow> 'e list \<Rightarrow> nat \<Rightarrow> ('k \<times> 'e list) list \<Rightarrow> gate list" where
  "counter_blocks cc us j [] = []"
| "counter_blocks cc us j (sub # rest) =
     subset_block cc us j (snd sub) @ counter_blocks cc us (Suc j) rest"

section \<open>Configuration errors and the example instance\<close>

text \<open>
  The errors that report a rejected configuration: the constructor's check of the
  encoding is the only validation in the source. Every other error is raised by the
  operation that fails.
\<close>

fun configuration_error :: "error \<Rightarrow> bool" where
  "configuration_error (UnknownEncoding enc) = True"
| "configuration_error e = False"

text \<open>
  The instance of the specification's scenario: universe \<open>{1, 2, 3}\<close> and subsets
  \<open>A = {1, 2}\<close>, \<open>B = {2, 3}\<close>, \<open>C = {1, 3}\<close>.
\<close>

definition ex_universe :: "nat list" where
  "ex_universe = [1, 2, 3]"

definition ex_subsets :: "(string \<times> nat list) list" where
  "ex_subsets = [(''A'', [1, 2]), (''B'', [2, 3]), (''C'', [1, 3])]"

definition ex_solver :: "int option \<Rightarrow> (string, nat) solver" where
  "ex_solver ns =
     \<lparr>universe = ex_universe, subsets = ex_subsets, num_solutions = ns,
      u_size = 3, s_size = 3, b = 2\<rparr>"

section \<open>The gate sequences of the counter and of the oracle\<close>

text \<open>The counter's gates on the allocated registers: the blocks of all subsets.\<close>

definition counter_sequence :: "('k, 'e) solver \<Rightarrow> gate list" where
  "counter_sequence sv =
     counter_blocks (count_circuit (allocate sv)) (universe sv) 0 (subsets sv)"

text \<open>The counter qubits the oracle flips: those whose index is not zero.\<close>

definition flipped :: "('k, 'e) solver \<Rightarrow> qubit list" where
  "flipped sv = filter (\<lambda>q. hd (index q) \<noteq> 0) (u_qubits (allocate sv))"

text \<open>
  The oracle's gates: the flips, one \<open>CnX\<close> from all counter qubits onto the ancilla,
  and the flips again.
\<close>

definition oracle_sequence :: "('k, 'e) solver \<Rightarrow> gate list" where
  "oracle_sequence sv =
     map X (flipped sv)
     @ [CnX (u_qubits (allocate sv) @ [anc (allocate sv)])]
     @ map X (flipped sv)"

text \<open>The diffuser's gates, lines 256 to 265.\<close>

definition diffuser_sequence :: "('k, 'e) solver \<Rightarrow> gate list" where
  "diffuser_sequence sv =
     concat (map (\<lambda>q. [H q, X q]) (s_qubits (allocate sv)))
     @ [CnZ (s_qubits (allocate sv))]
     @ concat (map (\<lambda>q. [X q, H q]) (s_qubits (allocate sv)))"

text \<open>
  The solver that the constructor builds for the single subset \<open>A = {1, 2, 3}\<close> of
  the universe \<open>{1, 2, 3}\<close>: one subset qubit and counters of width zero.
\<close>

definition ex_single :: "(string, nat) solver" where
  "ex_single =
     \<lparr>universe = ex_universe, subsets = [(''A'', [1, 2, 3])], num_solutions = Some 1,
      u_size = 3, s_size = 1, b = 0\<rparr>"

section \<open>Counter width: properties\<close>

lemma counter_width_ceillog2:
  "0 < s \<Longrightarrow> counter_width s = Inr (ceillog2 s)"
  by (simp add: counter_width_def ceillog2_def)

lemma counter_width_eqI:
  "s \<le> 2 ^ w \<Longrightarrow> 2 ^ w < 2 * s \<Longrightarrow> counter_width s = Inr w"
  by (cases "s = 0") (simp_all add: counter_width_ceillog2 ceillog2_eqI)

lemma counter_width_3: "counter_width 3 = Inr 2"
  by (rule counter_width_eqI) simp_all

lemma counter_width_Suc3: "counter_width (Suc (Suc (Suc 0))) = Inr 2"
  using counter_width_3 by (simp add: numeral_3_eq_3)

lemma counter_width_1: "counter_width 1 = Inr 0"
  by (rule counter_width_eqI) simp_all


section \<open>The constructor on the example\<close>

lemma init_example_supplied:
  "init ''simple'' (Some n) p ex_universe ex_subsets [] = Inr (ex_solver None)"
  by (simp add: init_def ex_solver_def ex_universe_def ex_subsets_def counter_width_Suc3)

lemma init_example_default:
  "init ''simple'' None p ex_universe ex_subsets [] = Inr (ex_solver (Some p))"
  by (simp add: init_def ex_solver_def ex_universe_def ex_subsets_def counter_width_Suc3)

lemma init_num_solutions:
  "init enc arg p us ss ps = Inr sv \<Longrightarrow>
     num_solutions sv = (if arg = None then Some p else None)"
  by (auto simp: init_def Let_def split: if_splits sum.splits)

section \<open>Rounding to a double\<close>

lemma round_half_even_of_int: "round_half_even (of_int k) = k"
  by (simp add: round_half_even_def)

lemma round_half_even_nonneg: "0 \<le> x \<Longrightarrow> 0 \<le> round_half_even x"
  by (auto simp: round_half_even_def Let_def)

lemma round_half_even_le_neg1:
  assumes "x \<le> - 1" shows "round_half_even x \<le> - 1"
proof -
  have f: "\<lfloor>x\<rfloor> \<le> - 1" using assms by (simp add: floor_le_iff)
  show ?thesis
  proof (cases "\<lfloor>x\<rfloor> = - 1")
    case True
    then have "x = of_int (- 1)" using assms by linarith
    then show ?thesis by (simp only: round_half_even_of_int)
  next
    case False
    with f have "\<lfloor>x\<rfloor> + 1 \<le> - 1" by linarith
    with f show ?thesis by (auto simp: round_half_even_def Let_def)
  qed
qed

lemma round_half_even_upper: "real_of_int (round_half_even x) \<le> x + 1 / 2"
  unfolding round_half_even_def Let_def by (auto; linarith)

lemma round_half_even_lower: "x - 1 / 2 \<le> real_of_int (round_half_even x)"
  unfolding round_half_even_def Let_def by (auto; linarith)

lemma ulp_pos: "0 < ulp x"
  by (simp add: ulp_def)

lemma round_double_0: "round_double 0 = 0"
  by (simp add: round_double_def)

lemma round_double_nonneg: "0 \<le> x \<Longrightarrow> 0 \<le> round_double x"
  using ulp_pos [of x]
  by (auto simp: round_double_def intro!: mult_nonneg_nonneg round_half_even_nonneg)

lemma round_double_ulp: "x \<noteq> 0 \<Longrightarrow> round_double x = of_int (round_half_even (x / ulp x)) * ulp x"
  by (simp add: round_double_def)

lemma ulp_le:
  assumes "2 powr (- 1074) \<le> \<bar>x\<bar>" shows "ulp x \<le> \<bar>x\<bar>"
proof -
  have x0: "0 < \<bar>x\<bar>" using assms by (smt (verit) powr_gt_zero)
  show ?thesis
  proof (cases "\<lfloor>log 2 \<bar>x\<bar>\<rfloor> \<le> - 1022")
    case True
    then have "ulp x = 2 powr (- 1074)" by (simp add: ulp_def max_def)
    with assms show ?thesis by simp
  next
    case False
    then have "ulp x = 2 powr (of_int \<lfloor>log 2 \<bar>x\<bar>\<rfloor> - 52)" by (simp add: ulp_def max_def)
    also have "\<dots> \<le> 2 powr (log 2 \<bar>x\<bar>)" by (rule powr_mono) (linarith, simp)
    also have "\<dots> = \<bar>x\<bar>" using x0 by simp
    finally show ?thesis .
  qed
qed

lemma round_double_neg:
  assumes "x \<le> - (2 powr (- 1074))" shows "round_double x < 0"
proof -
  have xneg: "x < 0" using assms by (smt (verit) powr_gt_zero)
  have "ulp x \<le> \<bar>x\<bar>" using assms xneg by (intro ulp_le) simp
  then have "ulp x \<le> - x" using xneg by simp
  then have "x / ulp x \<le> - 1" using ulp_pos[of x] by (simp add: field_simps)
  then have "round_half_even (x / ulp x) \<le> - 1" by (rule round_half_even_le_neg1)
  then have "real_of_int (round_half_even (x / ulp x)) \<le> - 1" by linarith
  then have "real_of_int (round_half_even (x / ulp x)) * ulp x < 0"
    using ulp_pos[of x] by (simp add: mult_less_0_iff)
  with xneg show ?thesis by (simp add: round_double_ulp)
qed

lemma round_double_nonpos: assumes "x \<le> 0" shows "round_double x \<le> 0"
proof (cases "x = 0")
  case True then show ?thesis by (simp add: round_double_0)
next
  case False
  with assms have "x / ulp x \<le> 0" using ulp_pos[of x] by (simp add: field_simps)
  then have "real_of_int (round_half_even (x / ulp x)) \<le> 1 / 2"
    using round_half_even_upper[of "x / ulp x"] by linarith
  then have "round_half_even (x / ulp x) \<le> 0" by linarith
  then have "real_of_int (round_half_even (x / ulp x)) * ulp x \<le> 0"
    using ulp_pos[of x] by (simp add: mult_le_0_iff)
  with False show ?thesis by (simp add: round_double_ulp)
qed

lemma round_double_abs_le:
  assumes "2 powr (- 1074) \<le> \<bar>x\<bar>" shows "\<bar>round_double x\<bar> \<le> 2 * \<bar>x\<bar>"
proof -
  have x0: "x \<noteq> 0" using assms by (smt (verit) powr_gt_zero)
  have u: "ulp x \<le> \<bar>x\<bar>" using assms by (rule ulp_le)
  let ?r = "real_of_int (round_half_even (x / ulp x))"
  have "\<bar>?r\<bar> \<le> \<bar>x / ulp x\<bar> + 1 / 2"
    using round_half_even_upper[of "x / ulp x"] round_half_even_lower[of "x / ulp x"] by linarith
  then have "\<bar>?r\<bar> * ulp x \<le> (\<bar>x / ulp x\<bar> + 1 / 2) * ulp x"
    using ulp_pos[of x] by (simp add: mult_right_mono)
  also have "\<dots> = \<bar>x\<bar> + ulp x / 2" using ulp_pos[of x] by (simp add: field_simps abs_mult)
  also have "\<dots> \<le> 2 * \<bar>x\<bar>" using u by linarith
  finally have "\<bar>?r\<bar> * ulp x \<le> 2 * \<bar>x\<bar>" .
  moreover have "\<bar>round_double x\<bar> = \<bar>?r\<bar> * ulp x"
    using x0 ulp_pos[of x] by (simp add: round_double_ulp abs_mult)
  ultimately show ?thesis by simp
qed

lemma ulp_two_power: "ulp (2 ^ n) = 2 powr (real n - 52)"
proof -
  have "log 2 \<bar>2 ^ n :: real\<bar> = real n" by simp
  then have "\<lfloor>log 2 \<bar>2 ^ n :: real\<bar>\<rfloor> = int n" by simp
  then show ?thesis unfolding ulp_def by (simp add: max_def)
qed

lemma round_double_two_power: "round_double (2 ^ n) = 2 ^ n"
proof -
  have q: "(2 ^ n :: real) / ulp (2 ^ n) = of_int (2 ^ 52)"
    unfolding ulp_two_power by (simp add: powr_diff powr_realpow)
  have "round_double (2 ^ n) = of_int (round_half_even (of_int (2 ^ 52))) * ulp (2 ^ n)"
    by (subst round_double_ulp) (simp_all only: q, simp)
  also have "\<dots> = of_int (2 ^ 52) * ulp (2 ^ n)" by (simp only: round_half_even_of_int)
  also have "\<dots> = 2 ^ n"
    unfolding ulp_two_power by (simp add: powr_diff powr_realpow)
  finally show ?thesis .
qed

lemma int_true_divide_two_power_1:
  "int_true_divide (2 ^ n) 1 = (if 1024 \<le> n then Inl OverflowError else Inr (2 ^ n))"
proof -
  have "(2::real) ^ 1024 \<le> 2 ^ n \<longleftrightarrow> 1024 \<le> n"
    by (rule power_increasing_iff) simp
  then show ?thesis
    by (simp add: int_true_divide_def round_double_two_power Let_def del: power_increasing_iff)
qed

lemma default_num_iterations_overflow:
  "1024 \<le> s \<Longrightarrow> default_num_iterations s 1 = Inl OverflowError"
  by (simp add: default_num_iterations_def int_true_divide_two_power_1)

lemma iteration_formulas_agree:
  assumes "0 < num"
  shows "exp (ln (pi / 4) + (real s * ln 2 - ln (real_of_int num)) / 2)
           = pi / 4 * sqrt (2 ^ s / real_of_int num)"
proof -
  have n: "0 < real_of_int num" using assms by simp
  have "ln (sqrt (2 ^ s / real_of_int num)) = (real s * ln 2 - ln (real_of_int num)) / 2"
    using n by (simp add: ln_sqrt ln_div ln_realpow)
  moreover have "0 < sqrt (2 ^ s / real_of_int num)" using n by simp
  ultimately have "exp ((real s * ln 2 - ln (real_of_int num)) / 2) = sqrt (2 ^ s / real_of_int num)"
    by (metis exp_ln)
  then show ?thesis by (simp add: exp_add)
qed


section \<open>Structure of the built circuits\<close>

lemma add_qubits_eq: "add_qubits c qs = c\<lparr>qubit_ids := qubit_ids c @ qs\<rparr>"
  unfolding add_qubits_def
  by (induction qs arbitrary: c) (simp_all add: add_qubit_def)

lemma add_gates_eq: "add_gates c gs = c\<lparr>gates := gates c @ gs\<rparr>"
  unfolding add_gates_def
  by (induction gs arbitrary: c) (simp_all add: add_gate_def)

lemma allocate_u_qubits:
  "u_qubits (allocate sv) = concat (map (counter_register sv) [0..<u_size sv])"
  by (simp add: allocate_def Let_def counter_register_def [abs_def])

lemma allocate_s_qubits: "s_qubits (allocate sv) = map (\<lambda>i. Qubit ''S'' [i]) [0..<s_size sv]"
  by (simp add: allocate_def Let_def)

lemma allocate_anc: "anc (allocate sv) = Qubit ''anc'' []"
  by (simp add: allocate_def Let_def)

lemma allocate_count_circuit:
  "count_circuit (allocate sv) =
     \<lparr>qubit_ids = s_qubits (allocate sv) @ u_qubits (allocate sv), gates = [], c_register = 0\<rparr>"
  by (simp add: allocate_def Let_def add_qubits_eq Circuit_def)

lemma allocate_oracle_circ:
  "oracle_circ (allocate sv) =
     \<lparr>qubit_ids = u_qubits (allocate sv) @ [anc (allocate sv)], gates = [], c_register = 0\<rparr>"
  by (simp add: allocate_def Let_def add_qubits_eq add_qubit_def Circuit_def)

lemma allocate_diffuser:
  "diffuser (allocate sv) = \<lparr>qubit_ids = s_qubits (allocate sv), gates = [], c_register = 0\<rparr>"
  by (simp add: allocate_def Let_def add_qubits_eq Circuit_def)

lemma allocate_aux_circ:
  "aux_circ (allocate sv) =
     \<lparr>qubit_ids = s_qubits (allocate sv) @ u_qubits (allocate sv) @ [anc (allocate sv)],
      gates = [], c_register = 0\<rparr>"
  by (simp add: allocate_def Let_def add_qubits_eq add_qubit_def Circuit_def)

lemma allocate_main_circuit:
  "main_circuit (allocate sv) =
     \<lparr>qubit_ids = s_qubits (allocate sv) @ u_qubits (allocate sv) @ [anc (allocate sv)],
      gates = map H (s_qubits (allocate sv)) @ [X (anc (allocate sv)), H (anc (allocate sv))],
      c_register = 0\<rparr>"
  by (simp add: allocate_def Let_def add_qubits_eq add_gates_eq add_qubit_def add_gate_def Circuit_def)

lemma x_gates_indexed:
  "\<forall>q\<in>set qs. index q \<noteq> [] \<Longrightarrow>
     x_gates qs = Inr (map X (filter (\<lambda>q. hd (index q) \<noteq> 0) qs))"
  by (induction qs) (auto split: list.splits)

lemma dagger_gates_CnX: "dagger_gates (map CnX ls) = Inr (rev (map CnX ls))"
  by (induction ls) simp_all

lemma u_qubits_indexed: "q \<in> set (u_qubits (allocate sv)) \<Longrightarrow> \<exists>l j. q = Qubit l [j]"
  by (auto simp: allocate_u_qubits counter_register_def)

lemma q_list_of_blocks:
  "q_list_of cc us j es = Inr ql \<Longrightarrow>
     map CnX (rev ql) = subset_block cc us j es"
proof (induction es arbitrary: ql)
  case Nil
  then show ?case by (simp add: subset_block_def)
next
  case (Cons x es)
  then show ?case
    by (auto simp: subset_block_def increment_gates_def position_def rev_map split: sum.splits)
qed

lemma all_lists_from_blocks:
  "all_lists_from cc us j subs = Inr al \<Longrightarrow>
     map CnX (concat (map rev al)) = counter_blocks cc us j subs"
proof (induction subs arbitrary: j al)
  case Nil
  then show ?case by simp
next
  case (Cons sub subs)
  then show ?case
    by (auto simp: q_list_of_blocks split: sum.splits)
qed

lemma index_of_Inr: "x \<in> set us \<Longrightarrow> \<exists>i. index_of us x = Inr i \<and> i < length us \<and> us ! i = x"
  by (induction us) auto

lemma index_of_Inl: "x \<notin> set us \<Longrightarrow> index_of us x = Inl NotInList"
  by (induction us) auto

lemma index_of_bound: "index_of us x = Inr i \<Longrightarrow> i < length us \<and> us ! i = x"
  by (induction us arbitrary: i) (auto split: if_splits sum.splits)

lemma q_list_of_Inr: "set es \<subseteq> set us \<Longrightarrow> \<exists>ql. q_list_of cc us j es = Inr ql"
proof (induction es)
  case (Cons x es)
  then obtain i where "index_of us x = Inr i" using index_of_Inr[of x us] by auto
  with Cons show ?case by auto
qed simp

lemma all_lists_from_Inr:
  "\<forall>sub\<in>set subs. set (snd sub) \<subseteq> set us \<Longrightarrow> \<exists>al. all_lists_from cc us j subs = Inr al"
proof (induction subs arbitrary: j)
  case (Cons sub subs)
  from Cons.prems have "set (snd sub) \<subseteq> set us" by simp
  then obtain ql where "q_list_of cc us j (snd sub) = Inr ql"
    using q_list_of_Inr [of "snd sub" us cc j] by blast
  moreover from Cons.prems have "\<forall>sub\<in>set subs. set (snd sub) \<subseteq> set us" by simp
  then obtain al where "all_lists_from cc us (Suc j) subs = Inr al"
    using Cons.IH [of "Suc j"] by blast
  ultimately show ?case by simp
qed simp

lemma build_counter_Inr:
  assumes "build_counter sv (allocate sv) = Inr bs"
  shows "bs = (allocate sv)\<lparr>count_circuit :=
               (count_circuit (allocate sv))\<lparr>gates := counter_blocks (count_circuit (allocate sv)) (universe sv) 0 (subsets sv)\<rparr>,
             count_circuit_dag :=
               (count_circuit (allocate sv))\<lparr>gates := rev (counter_blocks (count_circuit (allocate sv)) (universe sv) 0 (subsets sv))\<rparr>\<rparr>"
proof -
  from assms obtain al where al: "all_lists_from (count_circuit (allocate sv)) (universe sv) 0 (subsets sv) = Inr al"
    by (auto simp: build_counter_def split: sum.splits)
  have g: "map CnX (concat (map rev al)) = counter_blocks (count_circuit (allocate sv)) (universe sv) 0 (subsets sv)"
    using al by (rule all_lists_from_blocks)
  have d: "dagger_gates (map CnX (concat (map rev al))) = Inr (rev (map CnX (concat (map rev al))))"
    by (rule dagger_gates_CnX)
  show ?thesis
    using assms al d unfolding build_counter_def g [symmetric]
    by (simp add: Let_def add_gates_eq dagger_def allocate_count_circuit)
qed

section \<open>Register names\<close>

lemma string_of_nat_nonempty: "string_of_nat n \<noteq> []"
  by (subst string_of_nat.simps) simp

lemma digit_inj:
  assumes "m < 10" "n < 10" "''0123456789'' ! m = ''0123456789'' ! n"
  shows "m = n"
proof -
  have "distinct ''0123456789''" by simp
  moreover have "m < length ''0123456789''" "n < length ''0123456789''" using assms by simp_all
  ultimately show ?thesis using assms(3) by (simp only: nth_eq_iff_index_eq)
qed

lemma string_of_nat_inj: "string_of_nat m = string_of_nat n \<Longrightarrow> m = n"
proof (induction m arbitrary: n rule: string_of_nat.induct)
  case (1 m)
  show ?case
  proof (cases "m < 10")
    case small: True
    then have m: "string_of_nat m = [''0123456789'' ! m]"
      by (subst string_of_nat.simps) simp
    show ?thesis
    proof (cases "n < 10")
      case True
      then have "string_of_nat n = [''0123456789'' ! n]"
        by (subst string_of_nat.simps) simp
      with m "1.prems" have "''0123456789'' ! m = ''0123456789'' ! n" by simp
      with small True show ?thesis by (rule digit_inj)
    next
      case False
      then have "string_of_nat n = string_of_nat (n div 10) @ [''0123456789'' ! (n mod 10)]"
        by (subst string_of_nat.simps) simp
      with m "1.prems" have "string_of_nat (n div 10) = []" by simp
      then show ?thesis by (simp add: string_of_nat_nonempty)
    qed
  next
    case big: False
    then have m: "string_of_nat m = string_of_nat (m div 10) @ [''0123456789'' ! (m mod 10)]"
      by (subst string_of_nat.simps) simp
    show ?thesis
    proof (cases "n < 10")
      case True
      then have "string_of_nat n = [''0123456789'' ! n]"
        by (subst string_of_nat.simps) simp
      with m "1.prems" have "string_of_nat (m div 10) = []" by simp
      then show ?thesis by (simp add: string_of_nat_nonempty)
    next
      case False
      then have "string_of_nat n = string_of_nat (n div 10) @ [''0123456789'' ! (n mod 10)]"
        by (subst string_of_nat.simps) simp
      with m "1.prems" have e: "string_of_nat (m div 10) = string_of_nat (n div 10)"
        and d: "''0123456789'' ! (m mod 10) = ''0123456789'' ! (n mod 10)" by simp_all
      from "1.IH" [OF big e] have "m div 10 = n div 10" .
      moreover have "m mod 10 = n mod 10" by (rule digit_inj [OF _ _ d]) simp_all
      ultimately show ?thesis by (metis div_mult_mod_eq)
    qed
  qed
qed

lemma label_inj: "label i = label i' \<longleftrightarrow> i = i'"
  by (auto simp: label_def dest: string_of_nat_inj)

lemma label_not_S: "label i \<noteq> ''S''" and label_not_anc: "label i \<noteq> ''anc''"
  by (simp_all add: label_def)

section \<open>The allocated qubits\<close>

lemma concat_map_product:
  "concat (map (\<lambda>i. map (f i) ys) xs) = map (\<lambda>(i, j). f i j) (List.product xs ys)"
  by (induction xs) (simp_all add: comp_def)

lemma u_qubits_product:
  "u_qubits (allocate sv) =
     map (\<lambda>(i, j). Qubit (label i) [j]) (List.product [0..<u_size sv] [0..<b sv])"
  by (simp add: allocate_def Let_def concat_map_product)

lemma length_u_qubits: "length (u_qubits (allocate sv)) = u_size sv * b sv"
  by (simp add: u_qubits_product)

lemma set_u_qubits:
  "set (u_qubits (allocate sv)) = {Qubit (label i) [j] | i j. i < u_size sv \<and> j < b sv}"
  by (auto simp: u_qubits_product)

lemma distinct_u_qubits: "distinct (u_qubits (allocate sv))"
  unfolding u_qubits_product
  by (rule distinct_map [THEN iffD2])
     (auto simp: distinct_product inj_on_def label_inj)

lemma distinct_s_qubits: "distinct (s_qubits (allocate sv))"
  by (simp add: allocate_s_qubits distinct_map inj_on_def)

lemma length_s_qubits: "length (s_qubits (allocate sv)) = s_size sv"
  by (simp add: allocate_s_qubits)

lemma set_s_qubits: "set (s_qubits (allocate sv)) = {Qubit ''S'' [i] | i. i < s_size sv}"
  by (auto simp: allocate_s_qubits)

lemma distinct_allocated:
  "distinct (s_qubits (allocate sv) @ u_qubits (allocate sv) @ [anc (allocate sv)])"
  by (auto simp: distinct_s_qubits distinct_u_qubits set_s_qubits set_u_qubits allocate_anc
      label_not_S label_not_anc label_not_S [THEN not_sym] label_not_anc [THEN not_sym])

lemma length_allocated:
  "length (s_qubits (allocate sv) @ u_qubits (allocate sv) @ [anc (allocate sv)])
     = s_size sv + u_size sv * b sv + 1"
  by (simp add: length_s_qubits length_u_qubits)

lemma length_filter_nonzero_upt: "length (filter (\<lambda>j. j \<noteq> 0) [0..<n]) = n - 1"
  by (induction n) auto

lemma length_filter_product_snd:
  "length (filter (\<lambda>(i, j). P j) (List.product xs ys)) = length xs * length (filter P ys)"
  by (induction xs) (simp_all add: filter_map comp_def)

lemma x_gates_u_qubits:
  "x_gates (u_qubits (allocate sv)) =
     Inr (map X (filter (\<lambda>q. hd (index q) \<noteq> 0) (u_qubits (allocate sv))))"
  by (rule x_gates_indexed) (auto simp: set_u_qubits)

lemma length_flipped:
  "length (filter (\<lambda>q. hd (index q) \<noteq> 0) (u_qubits (allocate sv))) = u_size sv * (b sv - 1)"
proof -
  have "filter (\<lambda>q. hd (index q) \<noteq> 0) (u_qubits (allocate sv)) =
        map (\<lambda>(i, j). Qubit (label i) [j])
          (filter (\<lambda>(i, j). j \<noteq> 0) (List.product [0..<u_size sv] [0..<b sv]))"
    unfolding u_qubits_product filter_map by (simp add: comp_def case_prod_unfold)
  then show ?thesis
    by (simp only: length_map length_filter_product_snd length_filter_nonzero_upt length_upt)
      simp
qed

lemma build_oracle_gates:
  assumes "u_qubits bs = u_qubits (allocate sv)" "gates (oracle_circ bs) = []"
  shows "\<exists>bs'. build_oracle bs = Inr bs' \<and>
           bs' = bs\<lparr>oracle_circ := (oracle_circ bs)\<lparr>gates :=
             map X (filter (\<lambda>q. hd (index q) \<noteq> 0) (u_qubits bs))
             @ [CnX (u_qubits bs @ [anc bs])]
             @ map X (filter (\<lambda>q. hd (index q) \<noteq> 0) (u_qubits bs))\<rparr>\<rparr>"
  using assms
  by (simp add: build_oracle_def x_gates_u_qubits Let_def add_gates_eq add_gate_def)

section \<open>The assembled circuits\<close>

lemma init_example_single:
  "init ''simple'' None 1 ex_universe [(''A'', [1, 2, 3])] [] = Inr ex_single"
  using counter_width_1 by (simp add: init_def ex_single_def ex_universe_def)

lemma build_counter_eq:
  assumes "build_counter sv (allocate sv) = Inr bs"
  shows "bs = (allocate sv)\<lparr>
           count_circuit := (count_circuit (allocate sv))\<lparr>gates := counter_sequence sv\<rparr>,
           count_circuit_dag :=
             (count_circuit (allocate sv))\<lparr>gates := rev (counter_sequence sv)\<rparr>\<rparr>"
  unfolding counter_sequence_def using assms by (rule build_counter_Inr)

lemma build_counter_succeeds:
  assumes "\<forall>sub\<in>set (subsets sv). set (snd sub) \<subseteq> set (universe sv)"
  shows "\<exists>bs. build_counter sv (allocate sv) = Inr bs"
proof -
  obtain al where "all_lists_from (count_circuit (allocate sv)) (universe sv) 0 (subsets sv) = Inr al"
    using all_lists_from_Inr [OF assms] by blast
  then show ?thesis
    by (simp add: build_counter_def Let_def add_gates_eq dagger_def allocate_count_circuit
        dagger_gates_CnX)
qed

lemma build_oracle_eq:
  assumes "u_qubits bs = u_qubits (allocate sv)" "anc bs = anc (allocate sv)"
    "gates (oracle_circ bs) = []"
  shows "build_oracle bs =
           Inr (bs\<lparr>oracle_circ := (oracle_circ bs)\<lparr>gates := oracle_sequence sv\<rparr>\<rparr>)"
  using assms
  by (simp add: build_oracle_def x_gates_u_qubits Let_def add_gates_eq add_gate_def
      oracle_sequence_def flipped_def)

lemma append_circuit_same_qubits:
  "set (qubit_ids d) \<subseteq> set (qubit_ids c) \<Longrightarrow> append_circuit c d = c\<lparr>gates := gates c @ gates d\<rparr>"
proof -
  assume "set (qubit_ids d) \<subseteq> set (qubit_ids c)"
  then have "filter (\<lambda>q. q \<notin> set (qubit_ids c)) (qubit_ids d) = []"
    by (auto simp: filter_empty_conv)
  then show ?thesis by (simp add: append_circuit_def)
qed

lemma assemble_aux_circ_eq:
  assumes "assemble_aux_circ sv (allocate sv) = Inr bs"
  shows "bs = (allocate sv)\<lparr>
           count_circuit := (count_circuit (allocate sv))\<lparr>gates := counter_sequence sv\<rparr>,
           count_circuit_dag :=
             (count_circuit (allocate sv))\<lparr>gates := rev (counter_sequence sv)\<rparr>,
           oracle_circ := (oracle_circ (allocate sv))\<lparr>gates := oracle_sequence sv\<rparr>,
           aux_circ := (aux_circ (allocate sv))\<lparr>gates :=
             counter_sequence sv @ oracle_sequence sv @ rev (counter_sequence sv)\<rparr>\<rparr>"
proof -
  from assms obtain bs1 where b1: "build_counter sv (allocate sv) = Inr bs1"
    by (auto simp: assemble_aux_circ_def split: sum.splits)
  note e1 = build_counter_eq [OF b1]
  have "build_oracle bs1 =
          Inr (bs1\<lparr>oracle_circ := (oracle_circ bs1)\<lparr>gates := oracle_sequence sv\<rparr>\<rparr>)"
    by (rule build_oracle_eq) (simp_all add: e1 allocate_oracle_circ)
  with assms b1 show ?thesis
    apply (simp add: assemble_aux_circ_def)
    apply (simp add: e1 allocate_oracle_circ allocate_aux_circ allocate_count_circuit
        append_circuit_def)
    done
qed

lemma assemble_aux_circ_succeeds:
  assumes "\<forall>sub\<in>set (subsets sv). set (snd sub) \<subseteq> set (universe sv)"
  shows "\<exists>bs. assemble_aux_circ sv (allocate sv) = Inr bs"
proof -
  obtain bs1 where b1: "build_counter sv (allocate sv) = Inr bs1"
    using build_counter_succeeds [OF assms] by blast
  note e1 = build_counter_eq [OF b1]
  have "build_oracle bs1 =
          Inr (bs1\<lparr>oracle_circ := (oracle_circ bs1)\<lparr>gates := oracle_sequence sv\<rparr>\<rparr>)"
    by (rule build_oracle_eq) (simp_all add: e1 allocate_oracle_circ)
  with b1 show ?thesis by (simp add: assemble_aux_circ_def)
qed

lemma build_diffuser_eq:
  assumes "s_qubits bs = s_qubits (allocate sv)" "gates (diffuser bs) = []"
  shows "build_diffuser bs = bs\<lparr>diffuser := (diffuser bs)\<lparr>gates := diffuser_sequence sv\<rparr>\<rparr>"
  using assms
  by (simp add: build_diffuser_def Let_def add_gates_eq add_gate_def diffuser_sequence_def)

lemma measure_gates_S:
  "\<forall>i\<in>set js. i < w \<Longrightarrow>
     measure_gates w (map (\<lambda>i. Qubit ''S'' [i]) js) =
       Inr (map (\<lambda>i. Measure (Qubit ''S'' [i]) i) js)"
  by (induction js) simp_all

lemma measure_gates_s_qubits:
  "measure_gates (s_size sv) (s_qubits (allocate sv)) =
     Inr (map (\<lambda>i. Measure (Qubit ''S'' [i]) i) [0..<s_size sv])"
  unfolding allocate_s_qubits by (rule measure_gates_S) simp

lemma concat_replicate_commute: "concat (replicate k xs) @ xs = xs @ concat (replicate k xs)"
  by (induction k) simp_all

lemma iterate_append_qubit_ids:
  assumes "set (qubit_ids a) \<subseteq> set (qubit_ids c)" "set (qubit_ids d) \<subseteq> set (qubit_ids c)"
  shows "((\<lambda>c. append_circuit (append_circuit c a) d) ^^ k) c =
           c\<lparr>gates := gates c @ concat (replicate k (gates a @ gates d))\<rparr>"
proof (induction k)
  case 0
  show ?case by simp
next
  case (Suc k)
  have "append_circuit (append_circuit (c\<lparr>gates := gates c @ concat (replicate k (gates a @ gates d))\<rparr>) a) d
        = c\<lparr>gates := gates c @ concat (replicate k (gates a @ gates d)) @ gates a @ gates d\<rparr>"
    using assms by (simp add: append_circuit_same_qubits)
  moreover have "concat (replicate k (gates a @ gates d)) @ gates a @ gates d
      = concat (replicate (Suc k) (gates a @ gates d))"
    using concat_replicate_commute [of k "gates a @ gates d"] by simp
  ultimately show ?case using Suc by simp
qed

text \<open>The main circuit for a given number of iterations.\<close>

lemma assemble_full_eq:
  assumes "assemble_full_circuit_w_meas sv (allocate sv) it = Inr bs"
  shows "\<exists>k. qubit_ids (main_circuit bs) =
               s_qubits (allocate sv) @ u_qubits (allocate sv) @ [anc (allocate sv)] \<and>
             gates (main_circuit bs) =
               map H (s_qubits (allocate sv)) @ [X (anc (allocate sv)), H (anc (allocate sv))]
               @ concat (replicate k
                   (counter_sequence sv @ oracle_sequence sv @ rev (counter_sequence sv)
                    @ diffuser_sequence sv))
               @ map (\<lambda>i. Measure (Qubit ''S'' [i]) i) [0..<s_size sv] \<and>
             c_register (main_circuit bs) = s_size sv"
proof -
  from assms obtain bs1 where a: "assemble_aux_circ sv (allocate sv) = Inr bs1"
    by (auto simp: assemble_full_circuit_w_meas_def split: sum.splits)
  note e1 = assemble_aux_circ_eq [OF a]
  have d: "build_diffuser bs1 = bs1\<lparr>diffuser := (diffuser bs1)\<lparr>gates := diffuser_sequence sv\<rparr>\<rparr>"
    by (rule build_diffuser_eq) (simp_all add: e1 allocate_diffuser)
  define bs2 where "bs2 = build_diffuser bs1"
  have m2: "main_circuit bs2 = main_circuit (allocate sv)"
    and a2: "aux_circ bs2 = (aux_circ (allocate sv))\<lparr>gates :=
             counter_sequence sv @ oracle_sequence sv @ rev (counter_sequence sv)\<rparr>"
    and d2: "diffuser bs2 = (diffuser (allocate sv))\<lparr>gates := diffuser_sequence sv\<rparr>"
    and s2: "s_qubits bs2 = s_qubits (allocate sv)"
    unfolding bs2_def d by (simp_all add: e1)
  have it: "((\<lambda>c. append_circuit (append_circuit c (aux_circ bs2)) (diffuser bs2)) ^^ k)
              (main_circuit bs2) =
            (main_circuit bs2)\<lparr>gates := gates (main_circuit bs2)
               @ concat (replicate k (gates (aux_circ bs2) @ gates (diffuser bs2)))\<rparr>" for k
    by (rule iterate_append_qubit_ids)
       (auto simp: m2 a2 d2 allocate_main_circuit allocate_aux_circ allocate_diffuser)
  from assms a obtain k ms where
    bs: "bs = bs2\<lparr>main_circuit := add_gates
           ((((\<lambda>c. append_circuit (append_circuit c (aux_circ bs2)) (diffuser bs2)) ^^ nat k)
              (main_circuit bs2))\<lparr>c_register := s_size sv\<rparr>) ms\<rparr>"
    and ms: "measure_gates (s_size sv) (s_qubits bs2) = Inr ms"
    unfolding assemble_full_circuit_w_meas_def
    by (auto simp: Let_def bs2_def [symmetric] split: sum.splits option.splits)
  from ms have ms': "ms = map (\<lambda>i. Measure (Qubit ''S'' [i]) i) [0..<s_size sv]"
    by (simp add: s2 measure_gates_s_qubits)
  have "main_circuit bs =
          (main_circuit bs2)\<lparr>gates := (gates (main_circuit bs2)
               @ concat (replicate (nat k) (gates (aux_circ bs2) @ gates (diffuser bs2)))) @ ms,
             c_register := s_size sv\<rparr>"
    unfolding bs it by (simp add: add_gates_eq)
  then show ?thesis
    by (intro exI [of _ "nat k"]) (simp add: m2 a2 d2 allocate_main_circuit ms')
qed

lemma build_circuit_eq:
  assumes "build_circuit sv = Inr c"
  shows "qubit_ids c = s_qubits (allocate sv) @ u_qubits (allocate sv) @ [anc (allocate sv)]"
proof -
  from assms obtain bs where "assemble_full_circuit_w_meas sv (allocate sv) None = Inr bs"
    and "c = main_circuit bs"
    by (auto simp: build_circuit_def split: sum.splits)
  then show ?thesis using assemble_full_eq [of sv None bs] by auto
qed

lemma build_circuit_succeeds:
  assumes "\<forall>sub\<in>set (subsets sv). set (snd sub) \<subseteq> set (universe sv)"
    and "num_solutions sv = Some num" and "default_num_iterations (s_size sv) num = Inr k"
  shows "\<exists>c. build_circuit sv = Inr c"
proof -
  obtain bs1 where a: "assemble_aux_circ sv (allocate sv) = Inr bs1"
    using assemble_aux_circ_succeeds [OF assms(1)] by blast
  note e1 = assemble_aux_circ_eq [OF a]
  have "s_qubits (build_diffuser bs1) = s_qubits (allocate sv)"
    by (simp add: build_diffuser_def Let_def e1)
  then show ?thesis
    using a assms(2,3)
    by (simp add: build_circuit_def assemble_full_circuit_w_meas_def Let_def
        measure_gates_s_qubits)
qed

lemma build_circuit_iteration_error:
  assumes "assemble_aux_circ sv (allocate sv) = Inr bs1"
    and "num_solutions sv = Some num" and "default_num_iterations (s_size sv) num = Inl e"
  shows "build_circuit sv = Inl e"
  using assms by (simp add: build_circuit_def assemble_full_circuit_w_meas_def Let_def)

lemma build_circuit_attribute_error:
  assumes "assemble_aux_circ sv (allocate sv) = Inr bs1" and "num_solutions sv = None"
  shows "build_circuit sv = Inl (AttributeError ''num_solutions'')"
  using assms by (simp add: build_circuit_def assemble_full_circuit_w_meas_def Let_def)

lemma length_qubits: "length (qubits c) = length (qubit_ids c)"
  by (simp add: qubits_def)

lemma distinct_qubits: "distinct (qubits c) = distinct (qubit_ids c)"
  by (simp add: qubits_def)

lemma set_qubits: "set (qubits c) = set (qubit_ids c)"
  by (simp add: qubits_def)

lemma default_num_iterations_one:
  "s < 1024 \<Longrightarrow> \<exists>k. default_num_iterations s 1 = Inr k"
  by (simp add: default_num_iterations_def int_true_divide_two_power_1 math_sqrt_def)

lemma ex_subsets_in_universe:
  "\<forall>sub\<in>set (subsets (ex_solver ns)). set (snd sub) \<subseteq> set (universe (ex_solver ns))"
  by (simp add: ex_solver_def ex_subsets_def ex_universe_def)

section \<open>Claims\<close>

text \<open>
  C7 (amended). For every \<open>s_size \<ge> 2\<close> the counter width \<open>b\<close> is at least one and
  is the least width with \<open>s_size \<le> 2 ^ b\<close>: every count below \<open>s_size\<close> fits, and
  \<open>s_size\<close> itself fits (\<open>s_size \<le> 2 ^ b - 1\<close>) exactly when it is not a power of two.
\<close>

theorem counter_width_bounds:
  assumes "2 \<le> s"
  shows "\<exists>w. counter_width s = Inr w \<and> 1 \<le> w \<and> s \<le> 2 ^ w \<and> 2 ^ w < 2 * s
           \<and> (s \<le> 2 ^ w - 1 \<longleftrightarrow> s \<noteq> 2 ^ w)"
proof -
  from assms have pos: "0 < s" by simp
  have w: "counter_width s = Inr (ceillog2 s)"
    using pos by (rule counter_width_ceillog2)
  have up: "s \<le> 2 ^ ceillog2 s" by (rule le_two_power_ceillog2)
  have lo: "2 ^ ceillog2 s < 2 * s" using pos by (rule two_power_ceillog2_gt)
  have "\<not> ceillog2 s \<le> 0"
    using assms ceillog2_le_iff [OF pos, of 0] by simp
  then have one: "1 \<le> ceillog2 s" by simp
  have "s \<le> 2 ^ ceillog2 s - 1 \<longleftrightarrow> s \<noteq> 2 ^ ceillog2 s"
    using up by auto
  with w up lo one show ?thesis by blast
qed

theorem counter_width_bounds_witness:
  "(2::nat) \<le> 3 \<and>
   (\<exists>w. counter_width 3 = Inr w \<and> 1 \<le> w \<and> (3::nat) \<le> 2 ^ w \<and> 2 ^ w < 2 * (3::nat))"
  using counter_width_bounds [of 3] by auto

text \<open>
  C7 as stated fails at a power of two: two subsets get a one-bit counter, and a
  count of two does not fit in it.
\<close>

theorem counter_width_power_of_two_counterexample:
  "counter_width 2 = Inr 1 \<and> \<not> ((2::nat) \<le> 2 ^ 1 - 1)"
  by (simp add: counter_width_ceillog2)

text \<open>
  C3. At \<open>s_size = 1024\<close> and one solution the two iteration counts differ: the build's
  division \<open>2 ** 1024 / 1\<close> raises \<open>OverflowError\<close>, and the estimator returns a count.
\<close>

theorem iteration_counts_differ_at_overflow:
  "default_num_iterations 1024 1 = Inl OverflowError \<and>
   (\<exists>k. mp_num_iterations 1024 1 = Inr k)"
  by (simp add: default_num_iterations_overflow mp_num_iterations_def)

text \<open>
  C6. A supplied \<open>num_solutions\<close> is dropped: the constructor assigns the attribute
  only when the argument is omitted, and resource estimation then fails reading it.
  With the argument omitted the puzzle's count is used.
\<close>

theorem supplied_num_solutions_is_dropped:
  "init ''simple'' (Some 2) 1 ex_universe ex_subsets [] = Inr (ex_solver None) \<and>
   num_solutions (ex_solver None) = None \<and>
   fst (resource_estimation (ex_solver None) 15) = Inl (AttributeError ''num_solutions'') \<and>
   init ''simple'' None 1 ex_universe ex_subsets [] = Inr (ex_solver (Some 1))"
  by (simp add: init_example_supplied init_example_default resource_estimation_def)
    (simp add: ex_solver_def)

text \<open>
  C9 (amended). Resource estimation reads no state but the solver and returns the same
  result whatever the global precision was; it leaves the global precision at 50
  digits, except that a call failing on the unassigned \<open>num_solutions\<close> attribute
  leaves it as it was.
\<close>

theorem resource_estimation_precision:
  "snd (resource_estimation sv dps) = (if num_solutions sv = None then dps else 50) \<and>
   fst (resource_estimation sv dps) = fst (resource_estimation sv dps')"
  by (simp add: resource_estimation_def Let_def split: option.splits sum.splits)

text \<open>
  C9 as stated fails: a call at the default precision of 15 digits leaves the global
  precision at 50.
\<close>

theorem resource_estimation_changes_precision_counterexample:
  "snd (resource_estimation (ex_solver (Some 1)) 15) = 50 \<and> (50::nat) \<noteq> 15"
  by (simp add: resource_estimation_def ex_solver_def Let_def split: sum.splits)

text \<open>
  C8. For a solver that the constructor returns, \<open>s_size \<ge> 1\<close> and \<open>b\<close> is the
  ceiling of the binary logarithm of \<open>s_size\<close> (zero when \<open>s_size = 1\<close>); every resource
  estimate reports \<open>n_qubits = s_size + u_size * b + 1\<close>, and every assembled main
  circuit has exactly that many qubits, all different.
\<close>

theorem qubit_count:
  assumes "init enc arg p us simple pattern = Inr sv"
  shows "1 \<le> s_size sv \<and> b sv = ceillog2 (s_size sv) \<and> (s_size sv = 1 \<longrightarrow> b sv = 0) \<and>
         (\<forall>dps est. fst (resource_estimation sv dps) = Inr est \<longrightarrow>
            n_qubits est = int (s_size sv) + int (u_size sv) * int (b sv) + 1) \<and>
         (\<forall>c. build_circuit sv = Inr c \<longrightarrow>
            length (qubits c) = s_size sv + u_size sv * b sv + 1 \<and> distinct (qubits c))"
proof -
  from assms have pos: "0 < s_size sv" and w: "counter_width (s_size sv) = Inr (b sv)"
    by (auto simp: init_def Let_def counter_width_def split: if_splits sum.splits)
  from w pos have bw: "b sv = ceillog2 (s_size sv)"
    by (simp add: counter_width_ceillog2)
  have est: "n_qubits est = int (s_size sv) + int (u_size sv) * int (b sv) + 1"
    if "fst (resource_estimation sv dps) = Inr est" for dps est
    using that
    by (auto simp: resource_estimation_def Let_def split: option.splits sum.splits)
  have circ: "length (qubits c) = s_size sv + u_size sv * b sv + 1 \<and> distinct (qubits c)"
    if "build_circuit sv = Inr c" for c
    using build_circuit_eq [OF that] length_allocated [of sv] distinct_allocated [of sv]
    by (simp add: length_qubits distinct_qubits)
  from pos bw est circ show ?thesis by auto
qed

theorem qubit_count_witness:
  "init ''simple'' None 1 ex_universe ex_subsets [] = Inr (ex_solver (Some 1)) \<and>
   (\<exists>est. fst (resource_estimation (ex_solver (Some 1)) 15) = Inr est \<and> n_qubits est = 10) \<and>
   (\<exists>c. build_circuit (ex_solver (Some 1)) = Inr c \<and> length (qubits c) = 10 \<and>
      distinct (qubits c))"
proof -
  note i = init_example_default [of 1]
  note q = qubit_count [OF i]
  obtain k where "default_num_iterations (s_size (ex_solver (Some 1))) 1 = Inr k"
    using default_num_iterations_one [of 3] by (auto simp: ex_solver_def)
  then obtain c where c: "build_circuit (ex_solver (Some 1)) = Inr c"
    using build_circuit_succeeds [OF ex_subsets_in_universe, of "Some 1" 1 k]
    by (auto simp: ex_solver_def)
  obtain est where e: "fst (resource_estimation (ex_solver (Some 1)) 15) = Inr est"
    by (simp add: resource_estimation_def ex_solver_def mp_num_iterations_def Let_def)
  from q e have "n_qubits est = 10" by (auto simp: ex_solver_def)
  moreover from q c have "length (qubits c) = 10 \<and> distinct (qubits c)"
    by (auto simp: ex_solver_def)
  ultimately show ?thesis using i c e by blast
qed

text \<open>
  C10 (amended). The oracle builder always succeeds. With counters of width
  \<open>b \<ge> 1\<close> the oracle has exactly \<open>1 + 2 * u_size * (b - 1)\<close> gates, and this equals the
  estimator's \<open>oracle_gates = 1 + 2 * ((u_size - 1) * b)\<close> exactly when \<open>u_size = b\<close>. With
  \<open>b = 0\<close> (a single subset) the oracle is the one multi-controlled \<open>X\<close>, and the
  estimator's \<open>oracle_gates\<close> is one as well, whatever \<open>u_size\<close> is.
\<close>

theorem oracle_gate_count:
  "\<exists>bs. build_oracle (allocate sv) = Inr bs \<and>
      gates (oracle_circ bs) = oracle_sequence sv \<and>
      (1 \<le> b sv \<longrightarrow>
         int (length (gates (oracle_circ bs))) = 1 + 2 * int (u_size sv) * (int (b sv) - 1) \<and>
         (int (length (gates (oracle_circ bs))) = oracle_gates sv \<longleftrightarrow> u_size sv = b sv)) \<and>
      (b sv = 0 \<longrightarrow> length (gates (oracle_circ bs)) = 1 \<and> oracle_gates sv = 1)"
proof -
  have o: "build_oracle (allocate sv) =
      Inr ((allocate sv)\<lparr>oracle_circ := (oracle_circ (allocate sv))\<lparr>gates := oracle_sequence sv\<rparr>\<rparr>)"
    by (rule build_oracle_eq) (simp_all add: allocate_oracle_circ)
  have len: "length (oracle_sequence sv) = 1 + 2 * (u_size sv * (b sv - 1))"
    using length_flipped [of sv] by (simp add: oracle_sequence_def flipped_def)
  have pos: "int (length (oracle_sequence sv)) = 1 + 2 * int (u_size sv) * (int (b sv) - 1)"
    if "1 \<le> b sv"
    using that by (simp add: len of_nat_diff)
  have iff: "int (length (oracle_sequence sv)) = oracle_gates sv \<longleftrightarrow> u_size sv = b sv"
    if "1 \<le> b sv"
    unfolding pos [OF that] oracle_gates_def by (auto simp: algebra_simps)
  have zero: "length (oracle_sequence sv) = 1 \<and> oracle_gates sv = 1" if "b sv = 0"
    using that by (simp add: len oracle_gates_def)
  show ?thesis
    unfolding o using pos iff zero by simp
qed

theorem oracle_gate_count_witness:
  "(1::nat) \<le> b (ex_solver None) \<and> b ex_single = 0 \<and>
   (\<exists>bs. build_oracle (allocate (ex_solver None)) = Inr bs \<and>
      int (length (gates (oracle_circ bs))) = 7 \<and> oracle_gates (ex_solver None) = 9) \<and>
   (\<exists>bs. build_oracle (allocate ex_single) = Inr bs \<and>
      length (gates (oracle_circ bs)) = 1 \<and> oracle_gates ex_single = 1)"
proof -
  have b1: "(1::nat) \<le> b (ex_solver None)" and b0: "b ex_single = 0"
    by (simp_all add: ex_solver_def ex_single_def)
  obtain bs where "build_oracle (allocate (ex_solver None)) = Inr bs"
    and "int (length (gates (oracle_circ bs))) = 7"
    using oracle_gate_count [of "ex_solver None"] by (auto simp: ex_solver_def)
  moreover have "oracle_gates (ex_solver None) = 9"
    by (simp add: oracle_gates_def ex_solver_def)
  moreover obtain bs' where "build_oracle (allocate ex_single) = Inr bs'"
    and "length (gates (oracle_circ bs')) = 1" and "oracle_gates ex_single = 1"
    using oracle_gate_count [of ex_single] b0 by auto
  ultimately show ?thesis using b1 b0 by blast
qed

text \<open>
  C10 as stated fails for a single subset: the counters have width zero, the oracle
  has one gate and not \<open>1 + 2 * 3 * (0 - 1)\<close>, and the estimator's count is one as well
  although \<open>u_size = 3\<close> differs from \<open>b = 0\<close>.
\<close>

theorem oracle_gate_count_single_subset_counterexample:
  "init ''simple'' None 1 ex_universe [(''A'', [1, 2, 3])] [] = Inr ex_single \<and>
   (\<exists>bs. build_oracle (allocate ex_single) = Inr bs \<and>
      int (length (gates (oracle_circ bs))) = 1 \<and>
      int (length (gates (oracle_circ bs))) \<noteq>
        1 + 2 * int (u_size ex_single) * (int (b ex_single) - 1) \<and>
      int (length (gates (oracle_circ bs))) = oracle_gates ex_single \<and>
      u_size ex_single \<noteq> b ex_single)"
proof -
  have o: "build_oracle (allocate ex_single) =
      Inr ((allocate ex_single)\<lparr>oracle_circ :=
             (oracle_circ (allocate ex_single))\<lparr>gates := oracle_sequence ex_single\<rparr>\<rparr>)"
    by (rule build_oracle_eq) (simp_all add: allocate_oracle_circ)
  have len: "length (oracle_sequence ex_single) = 1"
    using length_flipped [of ex_single]
    by (simp add: oracle_sequence_def flipped_def ex_single_def)
  have vals: "u_size ex_single = 3" "b ex_single = 0" "oracle_gates ex_single = 1"
    by (simp_all add: ex_single_def oracle_gates_def)
  show ?thesis
    unfolding o using init_example_single by (simp add: len vals)
qed

end
